theory Spec2Isabelle
  imports Complex_Main "HOL-Library.Log_Nat"
begin

section \<open>Python values used by \<^verbatim>\<open>ratelimiter.py\<close>\<close>

text \<open>
  The module computes with Python's unbounded integers (\<^typ>\<open>int\<close>) and with Python
  floats: every quotient in the source is written with the true division \<^verbatim>\<open>/\<close>, which
  yields a float, and is then cut back to an integer by \<^verbatim>\<open>int(...)\<close>.

  A Python float is an IEEE 754 binary64 number.  A finite one is modelled by the rational
  it denotes; the sign of zero is not modelled, since no operation of the module
  distinguishes the two zeros (a division by either raises, \<^verbatim>\<open>int\<close> of either is 0).
\<close>

text \<open>
  The exceptions the module can raise.  \<^verbatim>\<open>ValueError\<close> is the one the module raises
  itself, on a bad argument; the other two come from the arithmetic.
\<close>

datatype pyerror = ValueError | ZeroDivisionError | OverflowError

datatype pyfloat = Finite rat | PosInf | NegInf | NaN

text \<open>Powers of two with an integer exponent.\<close>

definition pow2 :: "int \<Rightarrow> rat" where
  "pow2 k = (if 0 \<le> k then 2 ^ nat k else 1 / 2 ^ nat (- k))"

text \<open>The binary exponent of a positive rational: \<open>pow2 (ilog2 x) \<le> x < pow2 (ilog2 x + 1)\<close>.\<close>

definition ilog2 :: "rat \<Rightarrow> int" where
  "ilog2 x = (let (n, d) = quotient_of x; k = bitlen n - bitlen d
              in if pow2 k \<le> x then k else k - 1)"

text \<open>Rounding to the nearest integer, ties to the even one.\<close>

definition round_half_even :: "rat \<Rightarrow> int" where
  "round_half_even x = (let f = \<lfloor>x\<rfloor>; r = x - of_int f
     in if r < 1 / 2 then f else if 1 / 2 < r then f + 1 else if even f then f else f + 1)"

text \<open>
  The binary64 magnitude nearest to a positive rational: 53 significant bits, the exponent
  not below that of the subnormal numbers, ties to even.  The result is not yet bounded
  above.
\<close>

definition round_mag :: "rat \<Rightarrow> rat" where
  "round_mag x = (let e = max (ilog2 x) (- 1022); u = pow2 (e - 52)
                  in of_int (round_half_even (x / u)) * u)"

text \<open>Rounding of an exact result to binary64, overflowing to an infinity.\<close>

definition fl :: "rat \<Rightarrow> pyfloat" where
  "fl x = (if x = 0 then Finite 0
           else let y = round_mag \<bar>x\<bar>
                in if pow2 1024 \<le> y then (if 0 < x then PosInf else NegInf)
                   else Finite (sgn x * y))"

text \<open>Truncation toward zero, as \<^verbatim>\<open>int(x)\<close> does on a float.\<close>

definition trunc :: "rat \<Rightarrow> int" where
  "trunc y = (if 0 \<le> y then \<lfloor>y\<rfloor> else \<lceil>y\<rceil>)"

text \<open>\<^verbatim>\<open>int(x)\<close> for a float \<^verbatim>\<open>x\<close>: an infinity raises OverflowError, a NaN ValueError.\<close>

fun int_of_float :: "pyfloat \<Rightarrow> pyerror + int" where
  "int_of_float (Finite y) = Inr (trunc y)"
| "int_of_float PosInf = Inl OverflowError"
| "int_of_float NegInf = Inl OverflowError"
| "int_of_float NaN = Inl ValueError"

text \<open>
  The conversion of an integer operand to a float (correctly rounded; OverflowError when the
  integer is beyond the float range).
\<close>

definition float_of_int :: "int \<Rightarrow> pyerror + pyfloat" where
  "float_of_int k = (case fl (of_int k) of
                       Finite y \<Rightarrow> Inr (Finite y)
                     | _ \<Rightarrow> Inl OverflowError)"

text \<open>
  \<^verbatim>\<open>a / b\<close> for two integers: ZeroDivisionError for a zero divisor, otherwise the
  correctly rounded quotient, OverflowError when it is beyond the float range.
\<close>

definition int_truediv :: "int \<Rightarrow> int \<Rightarrow> pyerror + pyfloat" where
  "int_truediv a b =
     (if b = 0 then Inl ZeroDivisionError
      else case fl (of_int a / of_int b) of
             Finite y \<Rightarrow> Inr (Finite y)
           | _ \<Rightarrow> Inl OverflowError)"

text \<open>IEEE division and multiplication of two floats (the divisor is not zero).\<close>

fun ieee_div :: "pyfloat \<Rightarrow> pyfloat \<Rightarrow> pyfloat" where
  "ieee_div (Finite x) (Finite y) = fl (x / y)"
| "ieee_div (Finite x) PosInf = Finite 0"
| "ieee_div (Finite x) NegInf = Finite 0"
| "ieee_div PosInf (Finite y) = (if 0 < y then PosInf else NegInf)"
| "ieee_div NegInf (Finite y) = (if 0 < y then NegInf else PosInf)"
| "ieee_div _ _ = NaN"

fun ieee_mul :: "pyfloat \<Rightarrow> pyfloat \<Rightarrow> pyfloat" where
  "ieee_mul (Finite x) (Finite y) = fl (x * y)"
| "ieee_mul (Finite x) PosInf = (if x = 0 then NaN else if 0 < x then PosInf else NegInf)"
| "ieee_mul (Finite x) NegInf = (if x = 0 then NaN else if 0 < x then NegInf else PosInf)"
| "ieee_mul PosInf (Finite y) = (if y = 0 then NaN else if 0 < y then PosInf else NegInf)"
| "ieee_mul NegInf (Finite y) = (if y = 0 then NaN else if 0 < y then NegInf else PosInf)"
| "ieee_mul PosInf PosInf = PosInf"
| "ieee_mul PosInf NegInf = NegInf"
| "ieee_mul NegInf PosInf = NegInf"
| "ieee_mul NegInf NegInf = PosInf"
| "ieee_mul _ _ = NaN"

text \<open>\<^verbatim>\<open>a / b\<close> for two floats: a zero divisor raises, nothing else does.\<close>

definition float_truediv :: "pyfloat \<Rightarrow> pyfloat \<Rightarrow> pyerror + pyfloat" where
  "float_truediv a b = (if b = Finite 0 then Inl ZeroDivisionError else Inr (ieee_div a b))"

text \<open>\<^verbatim>\<open>a * k\<close> for a float and an integer: the integer is converted first.\<close>

definition float_mul_int :: "pyfloat \<Rightarrow> int \<Rightarrow> pyerror + pyfloat" where
  "float_mul_int a k = (case float_of_int k of
                          Inl e \<Rightarrow> Inl e
                        | Inr b \<Rightarrow> Inr (ieee_mul a b))"

text \<open>The idiom \<^verbatim>\<open>int(a / b)\<close> on two integers, used by \<^verbatim>\<open>Rate\<close> and by \<^verbatim>\<open>refill\<close>.\<close>

definition int_div_trunc :: "int \<Rightarrow> int \<Rightarrow> pyerror + int" where
  "int_div_trunc a b = (case int_truediv a b of
                          Inl e \<Rightarrow> Inl e
                        | Inr q \<Rightarrow> int_of_float q)"


section \<open>Rate\<close>

definition SECOND_AS_NS :: int where
  "SECOND_AS_NS = 1000000000"

text \<open>
  The frozen dataclass has the single field \<^verbatim>\<open>period_ns\<close> (\<^verbatim>\<open>amount\<close> is an
  init-only variable), so the generated equality compares \<^verbatim>\<open>period_ns\<close> alone.
\<close>

record Rate =
  period_ns :: int

text \<open>
  \<^verbatim>\<open>Rate(amount, period_ns)\<close>: the generated constructor followed by
  \<^verbatim>\<open>__post_init__\<close>.  An exception leaves no object behind.
\<close>

definition Rate_init :: "int \<Rightarrow> int \<Rightarrow> pyerror + Rate" where
  "Rate_init amount p =
     (if amount < 1 then Inl ValueError
      else case int_div_trunc p amount of
             Inl e \<Rightarrow> Inl e
           | Inr k \<Rightarrow> Inr \<lparr>period_ns = k\<rparr>)"

text \<open>\<^verbatim>\<open>Rate.from_frequency(frequency_per_sec)\<close>.\<close>

definition from_frequency :: "pyfloat \<Rightarrow> pyerror + Rate" where
  "from_frequency frequency_per_sec =
     (case float_truediv (Finite 1) frequency_per_sec of
        Inl e \<Rightarrow> Inl e
      | Inr period_sec \<Rightarrow>
          (case float_mul_int period_sec SECOND_AS_NS of
             Inl e \<Rightarrow> Inl e
           | Inr scaled \<Rightarrow>
               (case int_of_float scaled of
                  Inl e \<Rightarrow> Inl e
                | Inr p \<Rightarrow> Rate_init 1 p)))"


section \<open>Bucket\<close>

record Bucket =
  volume :: int
  refill_rate :: Rate
  current :: int
  last_refill_ns :: int

text \<open>
  Every method that reads \<^verbatim>\<open>time.monotonic_ns()\<close> reads it exactly once on each path;
  the reading is the parameter \<open>now\<close>.  A method returns its outcome together with the
  bucket as it is when the method returns or raises.
\<close>

definition Bucket_init :: "int \<Rightarrow> Rate \<Rightarrow> int \<Rightarrow> Bucket" where
  "Bucket_init v r now = \<lparr>volume = v, refill_rate = r, current = v, last_refill_ns = now\<rparr>"

definition is_empty :: "Bucket \<Rightarrow> bool" where
  "is_empty b = (current b \<le> 0)"

definition remove :: "int \<Rightarrow> Bucket \<Rightarrow> (pyerror + unit) \<times> Bucket" where
  "remove amount b =
     (if amount < 0 then (Inl ValueError, b)
      else (Inr (), b\<lparr>current := current b - amount\<rparr>))"

definition refill :: "int \<Rightarrow> Bucket \<Rightarrow> (pyerror + unit) \<times> Bucket" where
  "refill now b =
     (let refill_needed = current b < volume b in
      if \<not> refill_needed then (Inr (), b\<lparr>last_refill_ns := now\<rparr>)
      else
        let time_since_last_refill = now - last_refill_ns b in
        case int_div_trunc time_since_last_refill (period_ns (refill_rate b)) of
          Inl e \<Rightarrow> (Inl e, b)
        | Inr n_tokens \<Rightarrow>
            (Inr (),
             b\<lparr>current := min (current b + n_tokens) (volume b),
               last_refill_ns := last_refill_ns b + n_tokens * period_ns (refill_rate b)\<rparr>))"

text \<open>
  The calls a client can make on a bucket, and the bucket they leave behind (an exception
  is caught by the client and the object lives on).  \<open>bucket_trace\<close> lists the bucket
  before the first call and after each call; every call comes with the reading the clock
  shows when it is made.
\<close>

datatype bucket_call = Call_is_empty | Call_remove int | Call_refill

fun call :: "int \<Rightarrow> bucket_call \<Rightarrow> Bucket \<Rightarrow> Bucket" where
  "call now Call_is_empty b = b"
| "call now (Call_remove amount) b = snd (remove amount b)"
| "call now Call_refill b = snd (refill now b)"

fun bucket_trace :: "Bucket \<Rightarrow> (int \<times> bucket_call) list \<Rightarrow> Bucket list" where
  "bucket_trace b [] = [b]"
| "bucket_trace b ((now, c) # cs) = b # bucket_trace (call now c b) cs"


section \<open>RateLimiter\<close>

record RateLimiter =
  bucket :: Bucket

definition RateLimiter_init :: "pyfloat \<Rightarrow> int \<Rightarrow> pyerror + RateLimiter" where
  "RateLimiter_init rps now =
     (case from_frequency rps of
        Inl e \<Rightarrow> Inl e
      | Inr r \<Rightarrow> Inr \<lparr>bucket = Bucket_init 1 r now\<rparr>)"

definition allow :: "int \<Rightarrow> RateLimiter \<Rightarrow> (pyerror + bool) \<times> RateLimiter" where
  "allow now rl =
     (case refill now (bucket rl) of
        (Inl e, b1) \<Rightarrow> (Inl e, rl\<lparr>bucket := b1\<rparr>)
      | (Inr u, b1) \<Rightarrow>
          if is_empty b1 then (Inr False, rl\<lparr>bucket := b1\<rparr>)
          else (case remove 1 b1 of
                  (Inl e, b2) \<Rightarrow> (Inl e, rl\<lparr>bucket := b2\<rparr>)
                | (Inr v, b2) \<Rightarrow> (Inr True, rl\<lparr>bucket := b2\<rparr>)))"

text \<open>
  A run of \<^verbatim>\<open>allow\<close> calls at the given clock readings: the answers (an exception is
  recorded and the object lives on) and the limiter after the last call.
\<close>

fun allow_run :: "RateLimiter \<Rightarrow> int list \<Rightarrow> (pyerror + bool) list \<times> RateLimiter" where
  "allow_run rl [] = ([], rl)"
| "allow_run rl (t # ts) =
     (case allow t rl of
        (r, rl1) \<Rightarrow> (case allow_run rl1 ts of (rs, rl2) \<Rightarrow> (r # rs, rl2)))"



section \<open>Properties of the arithmetic\<close>

text \<open>
  Facts about powers of two, the binary exponent and the rounding, up to the two results
  the module depends on: \<^verbatim>\<open>int(a / b)\<close> is the integer quotient as long as the
  dividend is below \<open>2 ^ 53\<close>, and the integer part of a float converts back to a float
  without loss.
\<close>

lemma pow2_powi: "pow2 k = 2 powi k"
  by (simp add: pow2_def power_int_def inverse_eq_divide power_one_over)

lemma pow2_pos: "0 < pow2 k"
  by (simp add: pow2_def)

lemma pow2_add: "pow2 (j + k) = pow2 j * pow2 k"
  by (simp add: pow2_powi power_int_add)

lemma pow2_diff: "pow2 (j - k) = pow2 j / pow2 k"
  by (simp add: pow2_powi power_int_diff)

lemma pow2_mono: "j \<le> k \<Longrightarrow> pow2 j \<le> pow2 k"
  by (simp add: pow2_powi power_int_increasing)

lemma pow2_strict_mono: "j < k \<Longrightarrow> pow2 j < pow2 k"
  by (simp add: pow2_powi power_int_strict_increasing)

lemma pow2_less_cancel: "pow2 j < pow2 k \<Longrightarrow> j < k"
  using pow2_mono [of k j] by (cases "j < k") auto

lemma pow2_nonneg_exp: "0 \<le> k \<Longrightarrow> pow2 k = of_int (2 ^ nat k)"
  by (simp add: pow2_def)

lemma pow2_0: "pow2 0 = 1"
  by (simp add: pow2_def)

lemma pow2_1: "pow2 1 = 2"
  by (simp add: pow2_def)

lemma bitlen_rat_bounds:
  assumes "0 < n"
  shows "pow2 (bitlen n - 1) \<le> of_int n" and "of_int n < pow2 (bitlen n)"
proof -
  have b: "1 \<le> bitlen n" using assms by (simp add: bitlen_alt_def)
  from bitlen_bounds [OF assms]
  have lo: "(2::int) ^ nat (bitlen n - 1) \<le> n" and hi: "n < 2 ^ nat (bitlen n)" by auto
  have "(of_int (2 ^ nat (bitlen n - 1)) :: rat) \<le> of_int n"
    using lo by (simp only: of_int_le_iff)
  then show "pow2 (bitlen n - 1) \<le> of_int n"
    using b by (simp add: pow2_nonneg_exp)
  have "(of_int n :: rat) < of_int (2 ^ nat (bitlen n))"
    using hi by (simp only: of_int_less_iff)
  then show "of_int n < pow2 (bitlen n)"
    using b by (simp add: pow2_nonneg_exp)
qed

lemma ilog2_bounds:
  assumes "0 < x"
  shows "pow2 (ilog2 x) \<le> x" and "x < pow2 (ilog2 x + 1)"
proof -
  obtain n d where q: "quotient_of x = (n, d)" by (cases "quotient_of x")
  have d: "0 < d" using q by (rule quotient_of_denom_pos)
  have x: "x = of_int n / of_int d" using q by (rule quotient_of_div)
  have n: "0 < n" using assms d x by (simp add: zero_less_divide_iff)
  define k where "k = bitlen n - bitlen d"
  have e: "ilog2 x = (if pow2 k \<le> x then k else k - 1)"
    by (simp add: ilog2_def q k_def Let_def)
  note bn = bitlen_rat_bounds [OF n] and bd = bitlen_rat_bounds [OF d]
  have dpos: "(0::rat) < of_int d" using d by simp
  have "x < pow2 (bitlen n) / pow2 (bitlen d - 1)"
    unfolding x using bn(2) bd(1) n pow2_pos [of "bitlen d - 1"]
    by (intro frac_less) auto
  also have "\<dots> = pow2 (k + 1)"
    by (simp add: k_def pow2_diff [symmetric] algebra_simps)
  finally have up: "x < pow2 (k + 1)" .
  have "pow2 (k - 1) = pow2 (bitlen n - 1) / pow2 (bitlen d)"
    by (simp add: k_def pow2_diff [symmetric] algebra_simps)
  also have "\<dots> \<le> x"
    unfolding x using bn(1) bd(2) dpos pow2_pos [of "bitlen n - 1"]
    by (intro frac_le) (auto intro: less_imp_le)
  finally have lo: "pow2 (k - 1) \<le> x" .
  show "pow2 (ilog2 x) \<le> x" using lo by (simp add: e)
  show "x < pow2 (ilog2 x + 1)" using up by (auto simp add: e not_le)
qed

lemma ilog2_less: "0 < x \<Longrightarrow> x < pow2 k \<Longrightarrow> ilog2 x < k"
  using ilog2_bounds(1) [of x] pow2_less_cancel [of "ilog2 x" k] by simp

lemma ilog2_ge: "0 < x \<Longrightarrow> pow2 k \<le> x \<Longrightarrow> k \<le> ilog2 x"
  using ilog2_bounds(2) [of x] pow2_less_cancel [of k "ilog2 x + 1"] by simp

text \<open>
  The overflow test of \<open>fl\<close> read off the binary exponent; the form used for evaluation.
\<close>

lemma fl_code [code]:
  "fl x = (if x = 0 then Finite 0
           else let y = round_mag \<bar>x\<bar>
                in if 0 < y \<and> 1024 \<le> ilog2 y then (if 0 < x then PosInf else NegInf)
                   else Finite (sgn x * y))"
proof -
  have "pow2 1024 \<le> y \<longleftrightarrow> 0 < y \<and> 1024 \<le> ilog2 y" for y
  proof
    assume a: "pow2 1024 \<le> y"
    then have "0 < y" using pow2_pos [of 1024] by simp
    then show "0 < y \<and> 1024 \<le> ilog2 y" using a by (simp add: ilog2_ge)
  next
    assume a: "0 < y \<and> 1024 \<le> ilog2 y"
    then have "pow2 1024 \<le> pow2 (ilog2 y)" by (intro pow2_mono) simp
    also have "\<dots> \<le> y" using a by (intro ilog2_bounds(1)) simp
    finally show "pow2 1024 \<le> y" .
  qed
  then show ?thesis by (simp add: fl_def Let_def)
qed

lemma rhe_floor_le: "\<lfloor>y\<rfloor> \<le> round_half_even y"
  by (simp add: round_half_even_def Let_def)

lemma rhe_le_half: "of_int (round_half_even y) \<le> y + 1 / 2"
  unfolding round_half_even_def Let_def by (auto; linarith)

lemma rhe_ge_half: "y - 1 / 2 \<le> of_int (round_half_even y)"
  unfolding round_half_even_def Let_def by (auto; linarith)

lemma rhe_of_int: "round_half_even (of_int n) = n"
  by (simp add: round_half_even_def)

lemma rhe_less:
  assumes "y < of_int N - 1 / 2"
  shows "round_half_even y < N"
proof -
  have "of_int (round_half_even y) < (of_int N :: rat)"
    using rhe_le_half [of y] assms by linarith
  then show ?thesis by (simp only: of_int_less_iff)
qed

lemma rhe_ge_int:
  assumes "of_int N \<le> y"
  shows "N \<le> round_half_even y"
proof -
  have "N \<le> \<lfloor>y\<rfloor>" using assms by (simp add: le_floor_iff)
  then show ?thesis using rhe_floor_le [of y] by linarith
qed

lemma rhe_le_int:
  assumes "y \<le> of_int N"
  shows "round_half_even y \<le> N"
proof -
  have "of_int (round_half_even y) < (of_int (N + 1) :: rat)"
    using rhe_le_half [of y] assms by simp
  then have "round_half_even y < N + 1" by (simp only: of_int_less_iff)
  then show ?thesis by simp
qed

lemma pow2_neg_nat: "pow2 (- int j) = 1 / 2 ^ j"
  by (simp add: pow2_def)

lemma round_mag_div_exact:
  assumes a: "0 < a" "a < 2 ^ 53" and b: "0 < b"
  shows "of_int (a div b) \<le> round_mag (of_int a / of_int b)"
    and "round_mag (of_int a / of_int b) < of_int (a div b) + 1"
proof -
  define x :: rat where "x = of_int a / of_int b"
  define k where "k = a div b"
  define e where "e = max (ilog2 x) (- 1022)"
  define u where "u = pow2 (e - 52)"
  define m where "m = round_half_even (x / u)"
  have rm: "round_mag x = of_int m * u"
    by (simp add: round_mag_def Let_def m_def u_def e_def)
  have bpos: "(0::rat) < of_int b" using b by simp
  have xpos: "0 < x" using a b by (simp add: x_def)
  have fl: "\<lfloor>x\<rfloor> = k" by (simp add: x_def k_def floor_divide_of_int_eq)
  have kx: "of_int k \<le> x" using of_int_floor_le [of x] by (simp add: fl)
  have xk: "x < of_int k + 1" using floor_correct [of x] by (simp add: fl)
  have k0: "0 \<le> k" using a b by (simp add: k_def pos_imp_zdiv_nonneg_iff)
  have "1 \<le> (of_int b :: rat)" using b by simp
  then have "x \<le> of_int a" using a unfolding x_def
    by (simp add: pos_divide_le_eq bpos mult_le_cancel_left1)
  also have "(of_int a :: rat) < of_int (2 ^ 53)" using a by (simp only: of_int_less_iff)
  also have "\<dots> = pow2 53" by (simp add: pow2_def)
  finally have "x < pow2 53" .
  then have "ilog2 x < 53" using xpos by (rule ilog2_less [rotated])
  then have e52: "e \<le> 52" by (simp add: e_def)
  define j where "j = nat (52 - e)"
  define P :: rat where "P = 2 ^ j"
  have Ppos: "0 < P" by (simp add: P_def)
  have "e - 52 = - int j" using e52 by (simp add: j_def)
  then have uP: "u = 1 / P" by (simp add: u_def P_def pow2_neg_nat)
  have upos: "0 < u" by (simp add: u_def pow2_pos)
  have u1: "u \<le> 1" using Ppos by (simp add: uP P_def)
  have xu: "x / u = x * P" by (simp add: uP)
  have "(of_int (k * 2 ^ j) :: rat) = of_int k * P" by (simp add: P_def)
  also have "\<dots> \<le> x * P" using kx Ppos by simp
  finally have "k * 2 ^ j \<le> m" unfolding m_def xu by (rule rhe_ge_int)
  then have "(of_int (k * 2 ^ j) :: rat) \<le> of_int m" by (simp only: of_int_le_iff)
  then have "of_int k * P \<le> (of_int m :: rat)" by (simp add: P_def)
  then have lower: "of_int k \<le> of_int m * u"
    using Ppos by (simp add: uP pos_le_divide_eq)
  have upper: "of_int m * u < of_int k + 1"
  proof (cases "x < 1 / 2")
    case True
    have "k = 0"
    proof -
      have "(of_int k :: rat) < of_int 1" using kx True by simp
      then have "k < 1" by (simp only: of_int_less_iff)
      then show ?thesis using k0 by simp
    qed
    have "of_int m \<le> x * P + 1 / 2" using rhe_le_half [of "x / u"] by (simp add: m_def xu)
    then have "of_int m * u \<le> (x * P + 1 / 2) * u" using upos by simp
    also have "\<dots> = x + u / 2" using Ppos by (simp add: uP field_simps)
    also have "\<dots> < 1" using True u1 by linarith
    finally show ?thesis using \<open>k = 0\<close> by simp
  next
    case False
    have "pow2 (- 1) \<le> x" using False by (simp add: pow2_def)
    then have "- 1 \<le> ilog2 x" using xpos by (rule ilog2_ge [rotated])
    then have e: "e = ilog2 x" by (simp add: e_def)
    have ex: "pow2 e \<le> x" unfolding e using xpos by (rule ilog2_bounds(1))
    have "of_int b * pow2 e \<le> of_int b * x" using ex bpos by simp
    also have "\<dots> = of_int a" using bpos by (simp add: x_def)
    also have "(of_int a :: rat) < of_int (2 ^ 53)" using a by (simp only: of_int_less_iff)
    finally have be: "of_int b * pow2 e < 2 ^ 53" by simp
    have "pow2 (52 - e) = P" using e52 by (simp add: P_def j_def pow2_def)
    then have Pe: "P * pow2 e = 2 ^ 52"
      using pow2_add [of "52 - e" e] by (simp add: pow2_def)
    have m1: "a mod b < b" using b by simp
    have m2: "b * (a div b) + a mod b = a" by simp
    have "b * (k + 1) = b * (a div b) + b" by (simp add: k_def algebra_simps)
    with m1 m2 have "a < b * (k + 1)" by linarith
    then have "a + 1 \<le> b * (k + 1)" by simp
    then have "(of_int (a + 1) :: rat) \<le> of_int (b * (k + 1))" by (simp only: of_int_le_iff)
    then have ab: "of_int b * x + 1 \<le> of_int b * (of_int k + 1)"
      using bpos by (simp add: x_def)
    have "x * P < of_int ((k + 1) * 2 ^ j) - 1 / 2"
    proof -
      have "of_int b * pow2 e * (x * P) + of_int b * pow2 e / 2 < of_int b * pow2 e * (x * P) + 2 ^ 52"
        using be by simp
      also have "\<dots> = (of_int b * x + 1) * (P * pow2 e)" by (simp add: Pe algebra_simps)
      also have "\<dots> \<le> (of_int b * (of_int k + 1)) * (P * pow2 e)"
        using ab Ppos pow2_pos [of e] by (intro mult_right_mono) auto
      also have "\<dots> = of_int b * pow2 e * ((of_int k + 1) * P)" by (simp add: algebra_simps)
      finally have "of_int b * pow2 e * (x * P + 1 / 2) < of_int b * pow2 e * ((of_int k + 1) * P)"
        by (simp add: algebra_simps)
      moreover have "0 < of_int b * pow2 e" using bpos pow2_pos [of e] by simp
      ultimately have "x * P + 1 / 2 < (of_int k + 1) * P"
        by (simp only: mult_less_cancel_left_pos)
      then show ?thesis by (simp add: P_def)
    qed
    then have "m < (k + 1) * 2 ^ j" unfolding m_def xu by (rule rhe_less)
    then have "m + 1 \<le> (k + 1) * 2 ^ j" by simp
    then have "(of_int (m + 1) :: rat) \<le> of_int ((k + 1) * 2 ^ j)" by (simp only: of_int_le_iff)
    then have "of_int m + 1 \<le> (of_int k + 1) * P" by (simp add: P_def)
    then have "(of_int m + 1) * u \<le> of_int k + 1"
      using Ppos by (simp add: uP pos_divide_le_eq)
    then show ?thesis using upos by (simp add: algebra_simps)
  qed
  show "of_int (a div b) \<le> round_mag (of_int a / of_int b)"
    using lower by (simp add: rm [unfolded x_def] k_def)
  show "round_mag (of_int a / of_int b) < of_int (a div b) + 1"
    using upper by (simp add: rm [unfolded x_def] k_def)
qed

lemma pow2_53: "pow2 53 = 2 ^ 53"
  using pow2_nonneg_exp [of 53] by simp

lemma div_facts:
  fixes a b :: int
  assumes "0 \<le> a" "0 < b"
  shows "0 \<le> a div b" "a div b \<le> a" "a div b * b \<le> a"
proof -
  show "0 \<le> a div b" using assms by (simp add: pos_imp_zdiv_nonneg_iff)
  show "a div b \<le> a" using zdiv_mono2 [of a 1 b] assms by simp
  have "b * (a div b) + a mod b = a" by simp
  moreover have "0 \<le> a mod b" using assms by simp
  ultimately have "b * (a div b) \<le> a" by linarith
  then show "a div b * b \<le> a" by (simp add: mult.commute)
qed

lemma trunc_nonneg: "0 \<le> y \<Longrightarrow> trunc y = \<lfloor>y\<rfloor>"
  by (simp add: trunc_def)

lemma trunc_minus: "trunc (- y) = - trunc y"
  by (cases y "0::rat" rule: linorder_cases) (simp_all add: trunc_def ceiling_minus floor_minus)

lemma round_mag_nonneg: "0 < x \<Longrightarrow> 0 \<le> round_mag x"
proof -
  assume x: "0 < x"
  define u where "u = pow2 (max (ilog2 x) (- 1022) - 52)"
  have u: "0 < u" by (simp add: u_def pow2_pos)
  then have "0 \<le> x / u" using x by simp
  then have "0 \<le> round_half_even (x / u)" using rhe_ge_int [of 0 "x / u"] by simp
  then show ?thesis using u by (simp add: round_mag_def Let_def u_def [symmetric])
qed

lemma fl_div_exact:
  assumes a: "0 \<le> a" "a < 2 ^ 53" and b: "0 < b"
  shows "\<exists>y. fl (of_int a / of_int b) = Finite y \<and> 0 \<le> y \<and> \<lfloor>y\<rfloor> = a div b"
proof (cases "a = 0")
  case True
  then show ?thesis by (simp add: fl_def)
next
  case False
  with a have apos: "0 < a" by simp
  define x :: rat where "x = of_int a / of_int b"
  define y where "y = round_mag x"
  have xpos: "0 < x" using apos b by (simp add: x_def)
  have lo: "of_int (a div b) \<le> y" and hi: "y < of_int (a div b) + 1"
    unfolding y_def x_def using round_mag_div_exact [OF apos a(2) b] by auto
  have k0: "0 \<le> a div b" using a(1) b by (rule div_facts(1))
  have ka: "a div b \<le> a" using a(1) b by (rule div_facts(2))
  have y0: "0 \<le> y" using lo k0 by (meson of_int_0_le_iff order_trans)
  have "of_int (a div b) + 1 \<le> (of_int (2 ^ 53) :: rat)"
  proof -
    have "a div b + 1 \<le> 2 ^ 53" using ka a by linarith
    then have "(of_int (a div b + 1) :: rat) \<le> of_int (2 ^ 53)" by (simp only: of_int_le_iff)
    then show ?thesis by simp
  qed
  then have "y < pow2 53" using hi by (simp add: pow2_53)
  also have "pow2 53 \<le> pow2 1024" by (rule pow2_mono) simp
  finally have nov: "\<not> pow2 1024 \<le> y" by simp
  have "fl x = Finite y" using xpos nov by (simp add: fl_def y_def [symmetric] Let_def)
  moreover have "\<lfloor>y\<rfloor> = a div b" using lo hi by (simp add: floor_unique)
  ultimately show ?thesis using y0 by (simp add: x_def)
qed

lemma int_div_trunc_exact:
  assumes "0 \<le> a" "a < 2 ^ 53" "0 < b"
  shows "int_div_trunc a b = Inr (a div b)"
proof -
  from fl_div_exact [OF assms] obtain y
    where "fl (of_int a / of_int b) = Finite y" "0 \<le> y" "\<lfloor>y\<rfloor> = a div b" by blast
  then show ?thesis using assms(3) by (simp add: int_div_trunc_def int_truediv_def trunc_def)
qed

lemma fl_minus_Finite: "fl x = Finite y \<Longrightarrow> fl (- x) = Finite (- y)"
  by (auto simp add: fl_def Let_def sgn_if split: if_splits)

lemma int_div_trunc_exact_neg:
  assumes "0 \<le> a" "a < 2 ^ 53" "b < 0"
  shows "int_div_trunc a b = Inr (- (a div (- b)))"
proof -
  have b': "0 < - b" using assms(3) by simp
  from fl_div_exact [OF assms(1,2) b'] obtain y
    where y: "fl (of_int a / of_int (- b)) = Finite y" "0 \<le> y" "\<lfloor>y\<rfloor> = a div (- b)" by blast
  have "(of_int a / of_int b :: rat) = - (of_int a / of_int (- b))" by simp
  then have "fl (of_int a / of_int b) = Finite (- y)"
    using fl_minus_Finite [OF y(1)] by simp
  moreover have "trunc (- y) = - (a div (- b))"
    using y(2,3) by (simp add: trunc_minus trunc_nonneg)
  ultimately show ?thesis using assms(3) by (simp add: int_div_trunc_def int_truediv_def)
qed

lemma int_div_trunc_advance:
  assumes "0 \<le> a" "a < 2 ^ 53"
  shows "(\<exists>e. int_div_trunc a b = Inl e) \<or>
         (\<exists>n. int_div_trunc a b = Inr n \<and> 0 \<le> n * b \<and> n * b \<le> a)"
proof -
  consider "b = 0" | "0 < b" | "b < 0" by linarith
  then show ?thesis
  proof cases
    case 1
    then show ?thesis by (simp add: int_div_trunc_def int_truediv_def)
  next
    case 2
    have "0 \<le> a div b" using assms(1) 2 by (rule div_facts(1))
    then have "0 \<le> a div b * b" using 2 by simp
    moreover have "a div b * b \<le> a" using assms(1) 2 by (rule div_facts(3))
    ultimately show ?thesis using int_div_trunc_exact [OF assms 2] by simp
  next
    case 3
    then have b': "0 < - b" by simp
    have "0 \<le> a div (- b)" using assms(1) b' by (rule div_facts(1))
    then have "0 \<le> a div (- b) * (- b)" using b' by (intro mult_nonneg_nonneg) simp_all
    moreover have "a div (- b) * (- b) \<le> a" using assms(1) b' by (rule div_facts(3))
    ultimately show ?thesis using int_div_trunc_exact_neg [OF assms 3] by simp
  qed
qed

lemma fl_nonpos:
  assumes "x \<le> 0"
  shows "fl x = NegInf \<or> (\<exists>y\<le>0. fl x = Finite y)"
proof (cases "x = 0")
  case True
  then show ?thesis by (simp add: fl_def)
next
  case False
  with assms have x: "x < 0" by simp
  then have "0 \<le> round_mag \<bar>x\<bar>" by (intro round_mag_nonneg) simp
  then show ?thesis using x by (simp add: fl_def Let_def)
qed

lemma round_mag_le_pow2:
  assumes x: "0 < x" "x \<le> pow2 k" and k: "- 1022 \<le> k"
  shows "round_mag x \<le> pow2 k"
proof -
  define e where "e = max (ilog2 x) (- 1022)"
  define u where "u = pow2 (e - 52)"
  have "pow2 (ilog2 x) \<le> pow2 k" using ilog2_bounds(1) [OF x(1)] x(2) by simp
  then have "ilog2 x \<le> k" using pow2_strict_mono [of k "ilog2 x"] by (cases "ilog2 x \<le> k") auto
  then have ek: "e \<le> k" using k by (simp add: e_def)
  have upos: "0 < u" by (simp add: u_def pow2_pos)
  have ku: "pow2 k = of_int (2 ^ nat (k - e + 52)) * u"
  proof -
    have "pow2 k = pow2 ((k - e + 52) + (e - 52))" by simp
    also have "\<dots> = pow2 (k - e + 52) * u" unfolding u_def by (rule pow2_add)
    also have "pow2 (k - e + 52) = of_int (2 ^ nat (k - e + 52))"
      using ek by (intro pow2_nonneg_exp) simp
    finally show ?thesis .
  qed
  have "x / u \<le> of_int (2 ^ nat (k - e + 52))"
    using x(2) upos by (simp add: ku pos_divide_le_eq)
  then have "round_half_even (x / u) \<le> 2 ^ nat (k - e + 52)" by (rule rhe_le_int)
  then have "(of_int (round_half_even (x / u)) :: rat) \<le> of_int (2 ^ nat (k - e + 52))"
    by (simp only: of_int_le_iff)
  then have "of_int (round_half_even (x / u)) * u \<le> pow2 k"
    using upos by (simp add: ku)
  then show ?thesis by (simp add: round_mag_def Let_def e_def u_def)
qed

lemma round_mag_repr:
  assumes m: "0 < m" "m < 2 ^ 53" and i: "- 1074 \<le> i"
  shows "round_mag (of_int m * pow2 i) = of_int m * pow2 i"
proof -
  define y where "y = of_int m * pow2 i"
  define e where "e = max (ilog2 y) (- 1022)"
  define u where "u = pow2 (e - 52)"
  have ypos: "0 < y" using m by (simp add: y_def pow2_pos)
  have upos: "0 < u" by (simp add: u_def pow2_pos)
  have "(of_int m :: rat) < of_int (2 ^ 53)" using m by (simp only: of_int_less_iff)
  then have "y < pow2 53 * pow2 i" using pow2_pos [of i] by (simp add: y_def pow2_53)
  then have "y < pow2 (i + 53)" by (simp add: pow2_add [symmetric] add.commute)
  then have "ilog2 y < i + 53" using ypos by (rule ilog2_less [rotated])
  then have ei: "e - 52 \<le> i" using i by (simp add: e_def)
  define d where "d = nat (i - (e - 52))"
  have "pow2 i = pow2 ((i - (e - 52)) + (e - 52))" by simp
  also have "\<dots> = pow2 (i - (e - 52)) * u" unfolding u_def by (rule pow2_add)
  also have "pow2 (i - (e - 52)) = of_int (2 ^ d)"
    unfolding d_def using ei by (intro pow2_nonneg_exp) simp
  finally have iu: "pow2 i = of_int (2 ^ d) * u" .
  have "y / u = of_int (m * 2 ^ d)" using upos by (simp add: y_def iu)
  then have "round_half_even (y / u) = m * 2 ^ d" by (simp only: rhe_of_int)
  then have "round_mag y = of_int (m * 2 ^ d) * u"
    by (simp add: round_mag_def Let_def e_def [symmetric] u_def [symmetric])
  also have "\<dots> = y" by (simp add: y_def iu)
  finally show ?thesis by (simp add: y_def)
qed

lemma round_mag_form:
  assumes "0 < x"
  shows "\<exists>m i. round_mag x = of_int m * pow2 i \<and> 0 \<le> m \<and> m \<le> 2 ^ 53 \<and> - 1074 \<le> i"
proof -
  define e where "e = max (ilog2 x) (- 1022)"
  define u where "u = pow2 (e - 52)"
  define m where "m = round_half_even (x / u)"
  have upos: "0 < u" by (simp add: u_def pow2_pos)
  have rm: "round_mag x = of_int m * pow2 (e - 52)"
    by (simp add: round_mag_def Let_def e_def m_def u_def)
  have "0 \<le> x / u" using assms upos by simp
  then have m0: "0 \<le> m" unfolding m_def using rhe_ge_int [of 0 "x / u"] by simp
  have "x < pow2 (ilog2 x + 1)" using assms by (rule ilog2_bounds(2))
  also have "\<dots> \<le> pow2 (e + 1)" by (rule pow2_mono) (simp add: e_def)
  also have "pow2 (e + 1) = pow2 (53 + (e - 52))" by (rule arg_cong [where f = pow2]) arith
  also have "\<dots> = pow2 53 * u" unfolding u_def by (rule pow2_add)
  finally have "x / u < of_int (2 ^ 53)" using upos by (simp add: pow2_53 pos_divide_less_eq)
  then have "x / u \<le> of_int (2 ^ 53)" by simp
  then have "m \<le> 2 ^ 53" unfolding m_def by (rule rhe_le_int)
  moreover have "- 1074 \<le> e - 52" by (simp add: e_def)
  ultimately show ?thesis using rm m0 by blast
qed

lemma round_mag_idem:
  assumes "0 < x" "0 < round_mag x"
  shows "round_mag (round_mag x) = round_mag x"
proof -
  from round_mag_form [OF assms(1)] obtain m i
    where f: "round_mag x = of_int m * pow2 i" "0 \<le> m" "m \<le> 2 ^ 53" "- 1074 \<le> i" by blast
  have mpos: "0 < m"
  proof (rule ccontr)
    assume "\<not> 0 < m"
    with f(2) have "m = 0" by simp
    with f(1) assms(2) show False by simp
  qed
  show ?thesis
  proof (cases "m < 2 ^ 53")
    case True
    show ?thesis unfolding f(1) using mpos True f(4) by (rule round_mag_repr)
  next
    case False
    with f(3) have m: "m = 2 ^ 53" by simp
    have "(of_int m :: rat) * pow2 i = of_int (2 ^ 52) * (pow2 1 * pow2 i)"
      by (simp add: m pow2_1)
    also have "\<dots> = of_int (2 ^ 52) * pow2 (i + 1)"
      by (simp add: pow2_add [symmetric] add.commute)
    finally have eq: "(of_int m :: rat) * pow2 i = of_int (2 ^ 52) * pow2 (i + 1)" .
    have "round_mag (of_int (2 ^ 52) * pow2 (i + 1)) = of_int (2 ^ 52) * pow2 (i + 1)"
      using f(4) by (intro round_mag_repr) simp_all
    then show ?thesis by (simp only: f(1) eq)
  qed
qed

lemma fl_idem:
  assumes "fl x = Finite y"
  shows "fl y = Finite y"
proof -
  consider "x = 0" | "0 < x" | "x < 0" by linarith
  then show ?thesis
  proof cases
    case 1
    with assms show ?thesis by (simp add: fl_def)
  next
    case 2
    with assms have y: "y = round_mag x" and nov: "\<not> pow2 1024 \<le> round_mag x"
      by (auto simp add: fl_def Let_def split: if_splits)
    show ?thesis
    proof (cases "y = 0")
      case True
      then show ?thesis by (simp add: fl_def)
    next
      case False
      with round_mag_nonneg [OF 2] have ypos: "0 < y" by (simp add: y)
      then have "round_mag y = y" using round_mag_idem [OF 2] by (simp add: y)
      then show ?thesis using ypos nov by (simp add: fl_def Let_def y [symmetric])
    qed
  next
    case 3
    then have ax: "0 < \<bar>x\<bar>" by simp
    define w where "w = round_mag \<bar>x\<bar>"
    from 3 assms have y: "y = - w" and nov: "\<not> pow2 1024 \<le> w"
      by (auto simp add: fl_def Let_def w_def split: if_splits)
    show ?thesis
    proof (cases "w = 0")
      case True
      then show ?thesis by (simp add: fl_def y)
    next
      case False
      with round_mag_nonneg [OF ax] have wpos: "0 < w" by (simp add: w_def)
      then have "round_mag w = w" using round_mag_idem [OF ax] by (simp add: w_def)
      then show ?thesis using wpos nov by (simp add: fl_def Let_def y)
    qed
  qed
qed

lemma fl_integer_above:
  assumes "fl x = Finite y" "2 ^ 53 \<le> y"
  shows "y = of_int \<lfloor>y\<rfloor>"
proof -
  have xpos: "0 < x"
  proof (rule ccontr)
    assume "\<not> 0 < x"
    then have "x \<le> 0" by simp
    from fl_nonpos [OF this] assms(1) have "y \<le> 0" by auto
    with assms(2) show False by simp
  qed
  with assms have y: "y = round_mag x" by (auto simp add: fl_def Let_def split: if_splits)
  from round_mag_form [OF xpos] obtain m i
    where f: "round_mag x = of_int m * pow2 i" "0 \<le> m" "m \<le> 2 ^ 53" "- 1074 \<le> i" by blast
  have "0 \<le> i"
  proof (rule ccontr)
    assume "\<not> 0 \<le> i"
    then have "i < 0" by simp
    then have "pow2 i < pow2 0" by (rule pow2_strict_mono)
    then have p: "pow2 i < 1" by (simp add: pow2_0)
    have m53: "(of_int m :: rat) \<le> of_int (2 ^ 53)" using f(3) by (simp only: of_int_le_iff)
    have "of_int m * pow2 i \<le> of_int (2 ^ 53) * pow2 i"
      using m53 pow2_pos [of i] by (intro mult_right_mono) simp_all
    also have "\<dots> < of_int (2 ^ 53) * 1" using p by (intro mult_strict_left_mono) simp_all
    finally have "y < 2 ^ 53" by (simp add: y f(1))
    with assms(2) show False by simp
  qed
  then have "pow2 i = of_int (2 ^ nat i)" by (rule pow2_nonneg_exp)
  then have "y = of_int (m * 2 ^ nat i)" by (simp add: y f(1))
  then show ?thesis by (metis floor_of_int)
qed

lemma int_div_trunc_one_of_float:
  assumes "fl x = Finite y" "0 \<le> y"
  shows "int_div_trunc (trunc y) 1 = Inr (trunc y)"
proof (cases "\<lfloor>y\<rfloor> < 2 ^ 53")
  case True
  have "0 \<le> \<lfloor>y\<rfloor>" using assms(2) by simp
  from int_div_trunc_exact [OF this True, of 1] show ?thesis
    using assms(2) by (simp add: trunc_def)
next
  case False
  then have "(of_int (2 ^ 53) :: rat) \<le> of_int \<lfloor>y\<rfloor>" by (simp only: of_int_le_iff)
  also have "\<dots> \<le> y" by (rule of_int_floor_le)
  finally have "2 ^ 53 \<le> y" by simp
  with assms(1) have yi: "y = of_int \<lfloor>y\<rfloor>" by (rule fl_integer_above)
  have "fl (of_int \<lfloor>y\<rfloor>) = Finite y" using fl_idem [OF assms(1)] yi by simp
  then show ?thesis
    using assms(2) by (simp add: int_div_trunc_def int_truediv_def trunc_def)
qed

lemma fl_small:
  assumes "0 \<le> x" "x \<le> pow2 k" "- 1022 \<le> k" "k < 1024"
  shows "\<exists>y. fl x = Finite y \<and> 0 \<le> y \<and> y \<le> pow2 k"
proof (cases "x = 0")
  case True
  then show ?thesis using pow2_pos [of k] by (simp add: fl_def less_imp_le)
next
  case False
  with assms(1) have xpos: "0 < x" by simp
  have le: "round_mag x \<le> pow2 k" using xpos assms(2,3) by (rule round_mag_le_pow2)
  also have "pow2 k < pow2 1024" using assms(4) by (rule pow2_strict_mono)
  finally have "\<not> pow2 1024 \<le> round_mag x" by simp
  then have "fl x = Finite (round_mag x)" using xpos by (simp add: fl_def Let_def)
  then show ?thesis using le round_mag_nonneg [OF xpos] by simp
qed

lemma float_of_int_second: "float_of_int SECOND_AS_NS = Inr (Finite 1000000000)"
  by code_simp


section \<open>Argument validation\<close>

text \<open>
  Claim C8.  \<^verbatim>\<open>Rate\<close> with an amount below 1 raises ValueError and yields no object;
  \<^verbatim>\<open>remove\<close> with a negative amount raises ValueError and the bucket is as it was;
  \<^verbatim>\<open>remove\<close> with any amount from 0 on subtracts it from \<^verbatim>\<open>current\<close> whatever the
  result, negative values included.
\<close>

theorem validation_precedes_mutation:
  "(amount < 1 \<longrightarrow> Rate_init amount p = Inl ValueError) \<and>
   (amount < 0 \<longrightarrow> remove amount b = (Inl ValueError, b)) \<and>
   (0 \<le> amount \<longrightarrow> remove amount b = (Inr (), b\<lparr>current := current b - amount\<rparr>))"
  by (simp add: Rate_init_def remove_def)

theorem validation_precedes_mutation_witness:
  "Rate_init 0 SECOND_AS_NS = Inl ValueError \<and>
   remove (- 1) (Bucket_init 5 \<lparr>period_ns = 7\<rparr> 0) = (Inl ValueError, Bucket_init 5 \<lparr>period_ns = 7\<rparr> 0) \<and>
   current (snd (remove 10 (Bucket_init 5 \<lparr>period_ns = 7\<rparr> 0))) = - 5"
  using validation_precedes_mutation [of 0 SECOND_AS_NS "Bucket_init 5 \<lparr>period_ns = 7\<rparr> 0"]
    validation_precedes_mutation [of "- 1" SECOND_AS_NS "Bucket_init 5 \<lparr>period_ns = 7\<rparr> 0"]
    validation_precedes_mutation [of 10 SECOND_AS_NS "Bucket_init 5 \<lparr>period_ns = 7\<rparr> 0"]
  by (simp add: Bucket_init_def)


section \<open>Refilling\<close>

text \<open>
  Claim C1, as amended.  On a bucket below its volume whose rate has a positive period, and
  with an elapsed time \<open>now - last_refill_ns\<close> from 0 up to, but not including,
  \<open>2 ^ 53\<close> nanoseconds, \<^verbatim>\<open>refill\<close> sets \<^verbatim>\<open>current\<close> to the minimum of the volume and
  \<^verbatim>\<open>current\<close> plus the integer quotient of the elapsed time by the period, and moves
  \<^verbatim>\<open>last_refill_ns\<close> forward by that quotient times the period, not to \<open>now\<close>.  The
  formula is the same whether \<^verbatim>\<open>current\<close> is positive, zero or negative.  On a bucket at or
  above its volume \<^verbatim>\<open>refill\<close> leaves \<^verbatim>\<open>current\<close> alone and sets \<^verbatim>\<open>last_refill_ns\<close>
  to \<open>now\<close>.
\<close>

theorem refill_arithmetic:
  "(current b < volume b \<and> 0 < period_ns (refill_rate b) \<and>
    0 \<le> now - last_refill_ns b \<and> now - last_refill_ns b < 2 ^ 53 \<longrightarrow>
      refill now b =
        (Inr (),
         b\<lparr>current := min (current b + (now - last_refill_ns b) div period_ns (refill_rate b))
                        (volume b),
           last_refill_ns := last_refill_ns b +
              (now - last_refill_ns b) div period_ns (refill_rate b) * period_ns (refill_rate b)\<rparr>)) \<and>
   (volume b \<le> current b \<longrightarrow> refill now b = (Inr (), b\<lparr>last_refill_ns := now\<rparr>))"
  by (simp add: refill_def Let_def int_div_trunc_exact)

theorem refill_arithmetic_witness:
  "refill 3000000000 \<lparr>volume = 2, refill_rate = \<lparr>period_ns = 2000000000\<rparr>, current = - 1, last_refill_ns = 0\<rparr>
     = (Inr (), \<lparr>volume = 2, refill_rate = \<lparr>period_ns = 2000000000\<rparr>, current = 0, last_refill_ns = 2000000000\<rparr>) \<and>
   refill 7 \<lparr>volume = 2, refill_rate = \<lparr>period_ns = 2000000000\<rparr>, current = 2, last_refill_ns = 0\<rparr>
     = (Inr (), \<lparr>volume = 2, refill_rate = \<lparr>period_ns = 2000000000\<rparr>, current = 2, last_refill_ns = 7\<rparr>)"
  using refill_arithmetic [of "\<lparr>volume = 2, refill_rate = \<lparr>period_ns = 2000000000\<rparr>, current = - 1, last_refill_ns = 0\<rparr>" 3000000000]
    refill_arithmetic [of "\<lparr>volume = 2, refill_rate = \<lparr>period_ns = 2000000000\<rparr>, current = 2, last_refill_ns = 0\<rparr>" 7]
  by simp

text \<open>
  The claim as stated, for every non-negative elapsed time, fails: the quotient is taken in
  floating point.  After \<open>3 * 2 ^ 53 - 1\<close> nanoseconds at a period of 3 the float
  quotient rounds up to \<open>2 ^ 53\<close>, one more than the integer quotient, and the timestamp
  moves by \<open>3 * 2 ^ 53\<close>.
\<close>

theorem refill_arithmetic_counterexample:
  "last_refill_ns (snd (refill 27021597764222975
      \<lparr>volume = 1, refill_rate = \<lparr>period_ns = 3\<rparr>, current = 0, last_refill_ns = 0\<rparr>))
   \<noteq> 0 + (27021597764222975 - 0) div 3 * 3"
  by code_simp


section \<open>Admission\<close>

lemma refill_raise_unchanged:
  assumes "refill now b = (Inl e, b1)"
  shows "b1 = b"
  using assms by (auto simp add: refill_def Let_def split: if_splits sum.splits)

text \<open>
  Claim C2, as amended.  \<^verbatim>\<open>allow\<close> refills first.  Whenever the refill completes: if
  the refilled bucket is empty (\<^verbatim>\<open>current <= 0\<close>) the answer is \<^verbatim>\<open>False\<close> and the
  limiter holds the refilled bucket unchanged; otherwise the answer is \<^verbatim>\<open>True\<close> and the
  limiter holds the refilled bucket with exactly one token less.  Whenever the refill raises,
  \<^verbatim>\<open>allow\<close> raises the same exception and the limiter is as it was.
\<close>

theorem allow_refills_then_takes_one:
  "(refill now (bucket rl) = (Inr u, b1) \<and> current b1 \<le> 0 \<longrightarrow>
      allow now rl = (Inr False, rl\<lparr>bucket := b1\<rparr>)) \<and>
   (refill now (bucket rl) = (Inr u, b1) \<and> 0 < current b1 \<longrightarrow>
      allow now rl = (Inr True, rl\<lparr>bucket := b1\<lparr>current := current b1 - 1\<rparr>\<rparr>)) \<and>
   (refill now (bucket rl) = (Inl e, b1) \<longrightarrow> allow now rl = (Inl e, rl))"
proof (intro conjI impI)
  assume "refill now (bucket rl) = (Inl e, b1)"
  moreover from this have "b1 = bucket rl" by (rule refill_raise_unchanged)
  ultimately show "allow now rl = (Inl e, rl)" by (simp add: allow_def)
qed (simp_all add: allow_def is_empty_def remove_def)

theorem allow_refills_then_takes_one_witness:
  "allow 5 \<lparr>bucket = \<lparr>volume = 1, refill_rate = \<lparr>period_ns = 1000000000\<rparr>,
                      current = 1, last_refill_ns = 0\<rparr>\<rparr>
     = (Inr True, \<lparr>bucket = \<lparr>volume = 1, refill_rate = \<lparr>period_ns = 1000000000\<rparr>,
                              current = 0, last_refill_ns = 5\<rparr>\<rparr>) \<and>
   allow 5 \<lparr>bucket = \<lparr>volume = 1, refill_rate = \<lparr>period_ns = 1000000000\<rparr>,
                      current = 0, last_refill_ns = 0\<rparr>\<rparr>
     = (Inr False, \<lparr>bucket = \<lparr>volume = 1, refill_rate = \<lparr>period_ns = 1000000000\<rparr>,
                               current = 0, last_refill_ns = 0\<rparr>\<rparr>)"
proof -
  have r1: "refill 5 (bucket \<lparr>bucket = \<lparr>volume = 1, refill_rate = \<lparr>period_ns = 1000000000\<rparr>,
                      current = 1, last_refill_ns = 0\<rparr>\<rparr>)
     = (Inr (), \<lparr>volume = 1, refill_rate = \<lparr>period_ns = 1000000000\<rparr>,
                  current = 1, last_refill_ns = 5\<rparr>)"
    by (simp add: refill_def)
  have r2: "refill 5 (bucket \<lparr>bucket = \<lparr>volume = 1, refill_rate = \<lparr>period_ns = 1000000000\<rparr>,
                      current = 0, last_refill_ns = 0\<rparr>\<rparr>)
     = (Inr (), \<lparr>volume = 1, refill_rate = \<lparr>period_ns = 1000000000\<rparr>,
                  current = 0, last_refill_ns = 0\<rparr>)"
    by (simp add: refill_def Let_def int_div_trunc_exact)
  show ?thesis
    using r1 r2
      allow_refills_then_takes_one [where now = 5 and u = "()"
        and rl = "\<lparr>bucket = \<lparr>volume = 1, refill_rate = \<lparr>period_ns = 1000000000\<rparr>,
                      current = 1, last_refill_ns = 0\<rparr>\<rparr>"
        and ?b1.0 = "\<lparr>volume = 1, refill_rate = \<lparr>period_ns = 1000000000\<rparr>,
                  current = 1, last_refill_ns = 5\<rparr>"]
      allow_refills_then_takes_one [where now = 5 and u = "()"
        and rl = "\<lparr>bucket = \<lparr>volume = 1, refill_rate = \<lparr>period_ns = 1000000000\<rparr>,
                      current = 0, last_refill_ns = 0\<rparr>\<rparr>"
        and ?b1.0 = "\<lparr>volume = 1, refill_rate = \<lparr>period_ns = 1000000000\<rparr>,
                  current = 0, last_refill_ns = 0\<rparr>"]
    by simp
qed

text \<open>
  The claim as stated, for every state of a limiter, fails: a limiter made for \<open>2 ^ 31\<close>
  requests per second has a period of zero; after its first call the bucket is empty, and
  the second call raises ZeroDivisionError where the claim has it answer \<^verbatim>\<open>False\<close>.
\<close>

theorem allow_on_zero_period_counterexample:
  "RateLimiter_init (Finite 2147483648) 0 = Inr \<lparr>bucket = Bucket_init 1 \<lparr>period_ns = 0\<rparr> 0\<rparr> \<and>
   is_empty (bucket (snd (allow 1 \<lparr>bucket = Bucket_init 1 \<lparr>period_ns = 0\<rparr> 0\<rparr>))) \<and>
   fst (allow_run \<lparr>bucket = Bucket_init 1 \<lparr>period_ns = 0\<rparr> 0\<rparr> [1, 2])
     = [Inr True, Inl ZeroDivisionError]"
  by code_simp


section \<open>Normalisation of a rate\<close>

lemma Rate_eq_iff: "(r1 :: Rate) = r2 \<longleftrightarrow> period_ns r1 = period_ns r2"
  by (cases r1, cases r2) simp

text \<open>
  Claim C3, as amended.  For an amount of at least 1 and a period from 1 up to, but not
  including, \<open>2 ^ 53\<close> nanoseconds, \<^verbatim>\<open>Rate(amount, period)\<close> has
  \<^verbatim>\<open>period_ns\<close> equal to the integer quotient of the period by the amount.  For every even
  period \<^verbatim>\<open>Rate(2, P)\<close> and \<^verbatim>\<open>Rate(1, P // 2)\<close> are the same, and two rates are equal
  exactly when their \<^verbatim>\<open>period_ns\<close> are.
\<close>

theorem rate_normalization:
  "(1 \<le> amount \<and> 0 < P \<and> P < 2 ^ 53 \<longrightarrow> Rate_init amount P = Inr \<lparr>period_ns = P div amount\<rparr>) \<and>
   (even P \<longrightarrow> Rate_init 2 P = Rate_init 1 (P div 2)) \<and>
   ((r1 :: Rate) = r2 \<longleftrightarrow> period_ns r1 = period_ns r2)"
proof (intro conjI impI)
  assume "1 \<le> amount \<and> 0 < P \<and> P < 2 ^ 53"
  then show "Rate_init amount P = Inr \<lparr>period_ns = P div amount\<rparr>"
    by (simp add: Rate_init_def int_div_trunc_exact)
next
  assume "even P"
  then obtain k where P: "P = 2 * k" by (elim evenE)
  have "(of_int P / of_int 2 :: rat) = of_int (P div 2) / of_int 1" by (simp add: P)
  then show "Rate_init 2 P = Rate_init 1 (P div 2)"
    by (simp add: Rate_init_def int_div_trunc_def int_truediv_def)
next
  show "(r1 :: Rate) = r2 \<longleftrightarrow> period_ns r1 = period_ns r2" by (rule Rate_eq_iff)
qed

theorem rate_normalization_witness:
  "Rate_init 2 SECOND_AS_NS = Inr \<lparr>period_ns = 500000000\<rparr> \<and>
   Rate_init 2 SECOND_AS_NS = Rate_init 1 500000000"
proof -
  note n = rate_normalization [of 2 SECOND_AS_NS "\<lparr>period_ns = 1\<rparr>" "\<lparr>period_ns = 1\<rparr>"]
  have a: "Rate_init 2 SECOND_AS_NS = Inr \<lparr>period_ns = 500000000\<rparr>"
    using n [THEN conjunct1] by (simp add: SECOND_AS_NS_def)
  have b: "Rate_init 2 SECOND_AS_NS = Rate_init 1 500000000"
    using n [THEN conjunct2, THEN conjunct1] by (simp add: SECOND_AS_NS_def)
  show ?thesis by (rule conjI [OF a b])
qed

text \<open>
  The claim as stated, for every positive period, fails: the quotient is taken in floating
  point, and \<open>2 ^ 53 + 1\<close> is not a float.
\<close>

theorem rate_normalization_counterexample:
  "Rate_init 1 9007199254740993 \<noteq> Inr \<lparr>period_ns = 9007199254740993 div 1\<rparr>"
  by code_simp


section \<open>A period of zero\<close>

lemma from_frequency_large:
  assumes "2 ^ 31 \<le> f"
  shows "from_frequency (Finite f) = Inr \<lparr>period_ns = 0\<rparr>"
proof -
  have fpos: "0 < f" using assms by (rule less_le_trans [rotated]) simp
  have p31: "pow2 (- 31) = 1 / 2 ^ 31" using pow2_neg_nat [of 31] by simp
  have "1 / f \<le> 1 / 2 ^ 31" using assms by (intro divide_left_mono) simp_all
  then have x: "0 \<le> 1 / f" "1 / f \<le> pow2 (- 31)" using fpos by (simp_all add: p31)
  from fl_small [OF x] obtain y where y: "fl (1 / f) = Finite y" "0 \<le> y" "y \<le> pow2 (- 31)"
    by auto
  have "y * 1000000000 \<le> pow2 (- 31) * 1000000000" using y(3) by simp
  also have "\<dots> \<le> pow2 (- 1)" using pow2_neg_nat [of 1] by (simp add: p31)
  finally have z: "0 \<le> y * 1000000000" "y * 1000000000 \<le> pow2 (- 1)" using y(2) by simp_all
  from fl_small [OF z] obtain w
    where w: "fl (y * 1000000000) = Finite w" "0 \<le> w" "w \<le> pow2 (- 1)" by auto
  have "w < 1" using w(3) pow2_neg_nat [of 1] by simp
  then have "\<lfloor>w\<rfloor> = 0" using w(2) by (simp add: floor_unique)
  then have t: "trunc w = 0" using w(2) by (simp add: trunc_def)
  have r: "Rate_init 1 0 = Inr \<lparr>period_ns = 0\<rparr>"
    by (simp add: Rate_init_def int_div_trunc_exact)
  show ?thesis
    using fpos y(1) w(1) t r
    by (simp add: from_frequency_def float_truediv_def float_mul_int_def float_of_int_second)
qed

text \<open>
  Claim C10.  \<^verbatim>\<open>Rate(1, 0)\<close> is accepted and has a period of zero; so has
  \<^verbatim>\<open>Rate.from_frequency(f)\<close> for every frequency from \<open>2 ^ 31\<close> per second upwards,
  infinity included; and on a bucket with such a rate that is below its volume,
  \<^verbatim>\<open>refill\<close> raises ZeroDivisionError and leaves the bucket as it was.
\<close>

theorem zero_period:
  "Rate_init 1 0 = Inr \<lparr>period_ns = 0\<rparr> \<and>
   (2 ^ 31 \<le> f \<longrightarrow> from_frequency (Finite f) = Inr \<lparr>period_ns = 0\<rparr>) \<and>
   from_frequency PosInf = Inr \<lparr>period_ns = 0\<rparr> \<and>
   (period_ns (refill_rate b) = 0 \<and> current b < volume b \<longrightarrow>
      refill now b = (Inl ZeroDivisionError, b))"
proof (intro conjI impI)
  show r: "Rate_init 1 0 = Inr \<lparr>period_ns = 0\<rparr>"
    by (simp add: Rate_init_def int_div_trunc_exact)
  show "from_frequency PosInf = Inr \<lparr>period_ns = 0\<rparr>"
    using r by (simp add: from_frequency_def float_truediv_def float_mul_int_def
        float_of_int_second fl_def trunc_def)
  show "from_frequency (Finite f) = Inr \<lparr>period_ns = 0\<rparr>" if "2 ^ 31 \<le> f"
    using that by (rule from_frequency_large)
  show "refill now b = (Inl ZeroDivisionError, b)"
    if "period_ns (refill_rate b) = 0 \<and> current b < volume b"
    using that by (simp add: refill_def Let_def int_div_trunc_def int_truediv_def)
qed

theorem zero_period_witness:
  "from_frequency (Finite 2147483648) = Inr \<lparr>period_ns = 0\<rparr> \<and>
   refill 5 \<lparr>volume = 1, refill_rate = \<lparr>period_ns = 0\<rparr>, current = 0, last_refill_ns = 0\<rparr>
     = (Inl ZeroDivisionError,
        \<lparr>volume = 1, refill_rate = \<lparr>period_ns = 0\<rparr>, current = 0, last_refill_ns = 0\<rparr>)"
  using zero_period [of 2147483648
      "\<lparr>volume = 1, refill_rate = \<lparr>period_ns = 0\<rparr>, current = 0, last_refill_ns = 0\<rparr>" 5]
  by simp


section \<open>A rate from a frequency\<close>

lemma fl_nonneg:
  assumes "0 \<le> x"
  shows "fl x = PosInf \<or> (\<exists>y\<ge>0. fl x = Finite y)"
proof (cases "x = 0")
  case True
  then show ?thesis by (simp add: fl_def)
next
  case False
  with assms have x: "0 < x" by simp
  then have "0 \<le> round_mag x" by (rule round_mag_nonneg)
  then show ?thesis using x by (simp add: fl_def Let_def)
qed

lemma from_frequency_finite:
  assumes "0 < f" and "ieee_mul (fl (1 / f)) (Finite 1000000000) = Finite y"
  shows "0 \<le> y" and "Rate_init 1 \<lfloor>y\<rfloor> = Inr \<lparr>period_ns = \<lfloor>y\<rfloor>\<rparr>"
    and "from_frequency (Finite f) = Rate_init 1 \<lfloor>y\<rfloor>"
proof -
  obtain x where x: "fl (1 / f) = Finite x"
    using assms(2) by (cases "fl (1 / f)") auto
  have "0 \<le> 1 / f" using assms(1) by simp
  from fl_nonneg [OF this] x have x0: "0 \<le> x" by auto
  have y: "fl (x * 1000000000) = Finite y" using assms(2) x by simp
  have "0 \<le> x * 1000000000" using x0 by simp
  from fl_nonneg [OF this] y show y0: "0 \<le> y" by auto
  have "int_div_trunc (trunc y) 1 = Inr (trunc y)"
    using y y0 by (rule int_div_trunc_one_of_float)
  then show "Rate_init 1 \<lfloor>y\<rfloor> = Inr \<lparr>period_ns = \<lfloor>y\<rfloor>\<rparr>"
    using y0 by (simp add: Rate_init_def trunc_def)
  show "from_frequency (Finite f) = Rate_init 1 \<lfloor>y\<rfloor>"
    using assms(1) x y y0
    by (simp add: from_frequency_def float_truediv_def float_mul_int_def
        float_of_int_second trunc_def)
qed


text \<open>
  Claim C4, as amended.  For every frequency \<open>f > 0\<close>, let \<open>y\<close> be the float product of
  the float quotient \<^verbatim>\<open>1 / f\<close> and \<^verbatim>\<open>1_000_000_000\<close>; when that product is finite,
  \<^verbatim>\<open>Rate.from_frequency(f)\<close> equals \<^verbatim>\<open>Rate(1, floor(y))\<close>, whose \<^verbatim>\<open>period_ns\<close> is
  \<open>floor(y)\<close>: the period is cut off toward zero, not rounded to the nearest integer.
\<close>

theorem from_frequency_truncates:
  assumes "0 < f" and "ieee_mul (fl (1 / f)) (Finite 1000000000) = Finite y"
  shows "from_frequency (Finite f) = Rate_init 1 \<lfloor>y\<rfloor> \<and>
         Rate_init 1 \<lfloor>y\<rfloor> = Inr \<lparr>period_ns = \<lfloor>y\<rfloor>\<rparr>"
  using from_frequency_finite [OF assms] by simp

theorem from_frequency_truncates_witness:
  "from_frequency (Finite (3 / 2)) = Inr \<lparr>period_ns = 666666666\<rparr>"
proof -
  have p: "(0::rat) < 3 / 2" by simp
  have m: "ieee_mul (fl (1 / (3 / 2))) (Finite 1000000000) = Finite (5592405333333333 / 8388608)"
    by code_simp
  have q: "\<lfloor>5592405333333333 / 8388608 :: rat\<rfloor> = 666666666" by code_simp
  show ?thesis using from_frequency_truncates [OF p m] by (simp only: q)
qed

text \<open>
  The claim as stated, with \<^verbatim>\<open>round\<close>, fails at \<open>f = 1.5\<close>: the code yields
  666666666 where rounding \<open>10 ^ 9 / 1.5\<close> gives 666666667.
\<close>

theorem from_frequency_truncates_counterexample:
  "from_frequency (Finite (3 / 2)) \<noteq> Rate_init 1 (round (1000000000 / (3 / 2) :: rat))"
  by code_simp


section \<open>A frequency that is not positive\<close>





section \<open>The refill timestamp\<close>

lemma refill_advance:
  assumes "0 \<le> now - last_refill_ns b" "now - last_refill_ns b < 2 ^ 53"
  shows "last_refill_ns b \<le> last_refill_ns (snd (refill now b)) \<and>
         last_refill_ns (snd (refill now b)) \<le> now"
proof (cases "current b < volume b")
  case False
  then show ?thesis using assms(1) by (simp add: refill_def)
next
  case True
  from int_div_trunc_advance [OF assms, of "period_ns (refill_rate b)"] show ?thesis
  proof (elim disjE exE conjE)
    fix e assume "int_div_trunc (now - last_refill_ns b) (period_ns (refill_rate b)) = Inl e"
    then show ?thesis using True assms(1) by (simp add: refill_def Let_def)
  next
    fix n assume "int_div_trunc (now - last_refill_ns b) (period_ns (refill_rate b)) = Inr n"
      and "0 \<le> n * period_ns (refill_rate b)"
      and "n * period_ns (refill_rate b) \<le> now - last_refill_ns b"
    then show ?thesis using True by (simp add: refill_def Let_def)
  qed
qed

lemma call_advance:
  assumes "0 \<le> now - last_refill_ns b"
    and "c = Call_refill \<and> current b < volume b \<longrightarrow> now - last_refill_ns b < 2 ^ 53"
  shows "last_refill_ns b \<le> last_refill_ns (call now c b) \<and>
         last_refill_ns (call now c b) \<le> now"
proof (cases c)
  case Call_is_empty
  then show ?thesis using assms(1) by simp
next
  case (Call_remove amount)
  then show ?thesis using assms(1) by (simp add: remove_def)
next
  case Call_refill
  show ?thesis
  proof (cases "current b < volume b")
    case True
    with Call_refill assms(2) have "now - last_refill_ns b < 2 ^ 53" by simp
    from refill_advance [OF assms(1) this] show ?thesis using Call_refill by simp
  next
    case False
    then show ?thesis using Call_refill assms(1) by (simp add: refill_def)
  qed
qed

lemma trace_last_sorted:
  assumes "last_refill_ns b \<le> t" "sorted (t # map fst cs)"
    "list_all (\<lambda>((now, c), b'). c = Call_refill \<and> current b' < volume b' \<longrightarrow>
                 now - last_refill_ns b' < 2 ^ 53) (zip cs (bucket_trace b cs))"
  shows "sorted (map last_refill_ns (bucket_trace b cs)) \<and>
         (\<forall>b'\<in>set (bucket_trace b cs). last_refill_ns b \<le> last_refill_ns b')"
  using assms
proof (induction cs arbitrary: b t)
  case Nil
  then show ?case by simp
next
  case (Cons a cs)
  obtain now c where a: "a = (now, c)" by (cases a)
  have tn: "t \<le> now" and srt: "sorted (now # map fst cs)"
    using Cons.prems(2) by (auto simp add: a)
  have hd: "c = Call_refill \<and> current b < volume b \<longrightarrow> now - last_refill_ns b < 2 ^ 53"
    and tl: "list_all (\<lambda>((now, c), b'). c = Call_refill \<and> current b' < volume b' \<longrightarrow>
                 now - last_refill_ns b' < 2 ^ 53) (zip cs (bucket_trace (call now c b) cs))"
    using Cons.prems(3) by (simp_all add: a)
  have e0: "0 \<le> now - last_refill_ns b" using Cons.prems(1) tn by simp
  note adv = call_advance [OF e0 hd]
  have "last_refill_ns (call now c b) \<le> now" using adv by simp
  from Cons.IH [OF this srt tl] 
  have ih: "sorted (map last_refill_ns (bucket_trace (call now c b) cs))"
    "\<forall>b'\<in>set (bucket_trace (call now c b) cs). last_refill_ns (call now c b) \<le> last_refill_ns b'"
    by simp_all
  show ?case using ih adv by (auto simp add: a)
qed

text \<open>
  Claim C5, as amended.  Take a bucket made at clock reading \<open>t0\<close> and any sequence of
  calls (\<^verbatim>\<open>is_empty\<close>, \<^verbatim>\<open>remove\<close>, \<^verbatim>\<open>refill\<close>) whose clock readings never go back,
  such that every \<^verbatim>\<open>refill\<close> made on a bucket below its volume finds less than
  \<open>2 ^ 53\<close> nanoseconds elapsed since \<^verbatim>\<open>last_refill_ns\<close>: \<^verbatim>\<open>last_refill_ns\<close> never
  decreases from one call to the next.  In every \<^verbatim>\<open>refill\<close> call on a bucket below its
  volume the timestamp moves by a whole multiple of the period; on a bucket at or above its
  volume it is set to the clock reading, whatever the period.
\<close>

theorem last_refill_never_decreases:
  assumes "sorted (t0 # map fst cs)"
    and "list_all (\<lambda>((now, c), b'). c = Call_refill \<and> current b' < volume b' \<longrightarrow>
                     now - last_refill_ns b' < 2 ^ 53)
           (zip cs (bucket_trace (Bucket_init v r t0) cs))"
  shows "sorted (map last_refill_ns (bucket_trace (Bucket_init v r t0) cs)) \<and>
         (current b < volume b \<longrightarrow>
            (\<exists>n. last_refill_ns (snd (refill now b)) =
                  last_refill_ns b + n * period_ns (refill_rate b))) \<and>
         (volume b \<le> current b \<longrightarrow> last_refill_ns (snd (refill now b)) = now)"
proof (intro conjI impI)
  have "last_refill_ns (Bucket_init v r t0) \<le> t0" by (simp add: Bucket_init_def)
  from trace_last_sorted [OF this assms]
  show "sorted (map last_refill_ns (bucket_trace (Bucket_init v r t0) cs))" by simp
next
  assume "current b < volume b"
  show "\<exists>n. last_refill_ns (snd (refill now b)) = last_refill_ns b + n * period_ns (refill_rate b)"
  proof (cases "int_div_trunc (now - last_refill_ns b) (period_ns (refill_rate b))")
    case (Inl e)
    then have "last_refill_ns (snd (refill now b)) = last_refill_ns b + 0 * period_ns (refill_rate b)"
      using \<open>current b < volume b\<close> by (simp add: refill_def Let_def)
    then show ?thesis by blast
  next
    case (Inr n)
    then have "last_refill_ns (snd (refill now b)) = last_refill_ns b + n * period_ns (refill_rate b)"
      using \<open>current b < volume b\<close> by (simp add: refill_def Let_def)
    then show ?thesis by blast
  qed
next
  assume "volume b \<le> current b"
  then show "last_refill_ns (snd (refill now b)) = now" by (simp add: refill_def)
qed

theorem last_refill_never_decreases_witness:
  "sorted (map last_refill_ns (bucket_trace (Bucket_init 2 \<lparr>period_ns = 10\<rparr> 0)
      [(5, Call_refill), (1152921504606846976, Call_refill), (1152921504606846983, Call_remove 2),
       (1152921504606846983, Call_is_empty), (1152921504606846996, Call_refill),
       (1152921504606847007, Call_remove (- 1)), (1152921504606847007, Call_refill)]))"
proof -
  have s: "sorted (0 # map fst
      [(5, Call_refill), (1152921504606846976, Call_refill), (1152921504606846983, Call_remove 2),
       (1152921504606846983, Call_is_empty), (1152921504606846996, Call_refill),
       (1152921504606847007, Call_remove (- 1)), (1152921504606847007 :: int, Call_refill)])"
    by simp
  have e: "list_all (\<lambda>((now, c), b'). c = Call_refill \<and> current b' < volume b' \<longrightarrow>
                     now - last_refill_ns b' < 2 ^ 53)
           (zip [(5, Call_refill), (1152921504606846976, Call_refill), (1152921504606846983, Call_remove 2),
       (1152921504606846983, Call_is_empty), (1152921504606846996, Call_refill),
       (1152921504606847007, Call_remove (- 1)), (1152921504606847007, Call_refill)]
              (bucket_trace (Bucket_init 2 \<lparr>period_ns = 10\<rparr> 0)
                [(5, Call_refill), (1152921504606846976, Call_refill), (1152921504606846983, Call_remove 2),
       (1152921504606846983, Call_is_empty), (1152921504606846996, Call_refill),
       (1152921504606847007, Call_remove (- 1)), (1152921504606847007, Call_refill)]))"
    by (simp add: Bucket_init_def refill_def remove_def Let_def int_div_trunc_exact)
  from last_refill_never_decreases [OF s e] show ?thesis by simp
qed

text \<open>
  The claim as stated fails on a full bucket: a refill five nanoseconds after construction
  moves the timestamp by 5 at a period of 10.
\<close>

theorem last_refill_never_decreases_counterexample:
  "\<not> period_ns (refill_rate (Bucket_init 1 \<lparr>period_ns = 10\<rparr> 0)) dvd
      (last_refill_ns (snd (refill 5 (Bucket_init 1 \<lparr>period_ns = 10\<rparr> 0)))
       - last_refill_ns (Bucket_init 1 \<lparr>period_ns = 10\<rparr> 0))"
  by (simp add: refill_def Bucket_init_def)

text \<open>
  The bound on the elapsed time cannot be dropped: beyond \<open>2 ^ 53\<close> nanoseconds the float
  quotient can exceed the elapsed time, the timestamp then lies ahead of the clock, and the
  next refill takes it back.
\<close>

lemma timestamp_overshoot:
  "map last_refill_ns (bucket_trace (Bucket_init 1 \<lparr>period_ns = 1\<rparr> 0)
     [(0, Call_remove 1), (1152921504606847105, Call_refill),
      (1152921504606847105, Call_remove 1), (1152921504606847105, Call_refill)])
   = [0, 0, 1152921504606847232, 1152921504606847232, 1152921504606847105]"
  by code_simp


section \<open>The tokens of a limiter\<close>




lemma from_frequency_two: "from_frequency (Finite 2) = Inr \<lparr>period_ns = 500000000\<rparr>"
  by code_simp

lemma from_frequency_one: "from_frequency (Finite 1) = Inr \<lparr>period_ns = 1000000000\<rparr>"
  by code_simp




text \<open>
  Nor can the bound on the elapsed time be dropped here: at a frequency of \<open>10 ^ 9\<close> per second, a call
  \<open>2 ^ 60 + 129\<close> nanoseconds after the first and another at the same clock reading leave
  \<open>- 127\<close> tokens.
\<close>

lemma limiter_overshoot:
  "RateLimiter_init (Finite 1000000000) 0 = Inr \<lparr>bucket = Bucket_init 1 \<lparr>period_ns = 1\<rparr> 0\<rparr> \<and>
   current (bucket (snd (allow_run \<lparr>bucket = Bucket_init 1 \<lparr>period_ns = 1\<rparr> 0\<rparr>
      [0, 1152921504606847105, 1152921504606847105]))) = - 127"
  by code_simp


section \<open>The acceptance pattern\<close>

text \<open>
  Claim C6, as amended.  A limiter made for 1 request per second (the default), asked five
  times with exactly half a second between consecutive calls, answers
  \<^verbatim>\<open>[True, False, True, False, True]\<close>, whenever it was made and whenever the first call
  comes.
\<close>

theorem one_per_second_alternates:
  "RateLimiter_init (Finite 1) t0 = Inr \<lparr>bucket = Bucket_init 1 \<lparr>period_ns = 1000000000\<rparr> t0\<rparr> \<and>
   fst (allow_run \<lparr>bucket = Bucket_init 1 \<lparr>period_ns = 1000000000\<rparr> t0\<rparr>
          [t, t + 500000000, t + 1000000000, t + 1500000000, t + 2000000000])
     = [Inr True, Inr False, Inr True, Inr False, Inr True]"
  by (simp add: RateLimiter_init_def from_frequency_one allow_def refill_def Bucket_init_def
      is_empty_def remove_def Let_def int_div_trunc_exact)

text \<open>
  The claim as stated, for 2 requests per second, fails: the period is then half a second,
  every call finds a whole period elapsed, and all five are accepted.
\<close>

theorem two_per_second_counterexample:
  "RateLimiter_init (Finite 2) 0 = Inr \<lparr>bucket = Bucket_init 1 \<lparr>period_ns = 500000000\<rparr> 0\<rparr> \<and>
   fst (allow_run \<lparr>bucket = Bucket_init 1 \<lparr>period_ns = 500000000\<rparr> 0\<rparr>
          [0, 500000000, 1000000000, 1500000000, 2000000000])
     = [Inr True, Inr True, Inr True, Inr True, Inr True] \<and>
   fst (allow_run \<lparr>bucket = Bucket_init 1 \<lparr>period_ns = 500000000\<rparr> 0\<rparr>
          [0, 500000000, 1000000000, 1500000000, 2000000000])
     \<noteq> [Inr True, Inr False, Inr True, Inr False, Inr True]"
  by (simp add: RateLimiter_init_def from_frequency_two allow_def refill_def Bucket_init_def
      is_empty_def remove_def Let_def int_div_trunc_exact)

end
